theory Spec2Isabelle
  imports Main "HOL-Library.Log_Nat" "HOL-Library.Word"
begin

section \<open>Data model (App.tsx: interfaces Task and Personnel)\<close>

text \<open>
  The string-literal unions of the TypeScript interfaces become datatypes; the
  functions \<open>statusString\<close> and \<open>priorityString\<close> give back the literal, which is what the
  filter compares with the (free-text) filter values.
\<close>

datatype status = Pending | Active | Completed

datatype priority = Low | Medium | High | Urgent

fun statusString :: "status \<Rightarrow> string" where
  "statusString Pending = ''pending''"
| "statusString Active = ''active''"
| "statusString Completed = ''completed''"

fun priorityString :: "priority \<Rightarrow> string" where
  "priorityString Low = ''low''"
| "priorityString Medium = ''medium''"
| "priorityString High = ''high''"
| "priorityString Urgent = ''urgent''"

text \<open>
  A string of the source is a sequence of UTF-16 code units. The title, the description
  and the search term, whose case the filter maps, are lists of code units; the other
  strings are only compared, stored or trimmed and stay \<open>string\<close>. \<open>str\<close> gives the code
  units of a literal.
\<close>

type_synonym codeUnit = "16 word"

type_synonym jsString = "codeUnit list"

definition str :: "string \<Rightarrow> jsString" where
  "str s = map of_char s"

text \<open>
  \<open>taskData\<close> is \<^verbatim>\<open>Omit<Task, 'id' | 'createdAt' | 'activatedAt' | 'completedAt'>\<close>, the
  argument of \<^verbatim>\<open>handleTaskSubmit\<close>; \<open>task\<close> extends it with the four remaining fields,
  so that \<^verbatim>\<open>{ ...task, ...taskData }\<close> is an update of the \<open>taskData\<close> part of a task.
  A \<^verbatim>\<open>Date\<close> is its time value (milliseconds, an integer); an optional field is an
  \<open>option\<close>, \<open>None\<close> standing for \<^verbatim>\<open>undefined\<close>. The field \<^verbatim>\<open>id\<close> is named \<open>id_task\<close>
  (\<open>id_person\<close> for personnel) because \<open>id\<close> is the identity function of HOL.
\<close>

record taskData =
  title :: jsString
  description :: jsString
  status :: status
  priority :: priority
  assignedTo :: "string list"
  estimatedHours :: rat
  category :: string

record task = taskData +
  id_task :: string
  createdAt :: int
  activatedAt :: "int option"
  completedAt :: "int option"

record personData =
  name :: string
  role :: string
  department :: string
  active :: bool

record personnel = personData +
  id_person :: string
  avatar :: "string option"

text \<open>The part of the state of the component \<^verbatim>\<open>App\<close> that the handlers read and write.\<close>

record app =
  tasks :: "task list"
  categories :: "string list"
  showTaskForm :: bool
  editingTask :: "task option"

section \<open>Entity store: \<^verbatim>\<open>handleTaskSubmit\<close> (createTask and updateTask)\<close>

text \<open>\<^verbatim>\<open>{ ...task, ...taskData }\<close>: every field of \<open>taskData\<close> overwrites the task's.\<close>

definition spreadTaskData :: "task \<Rightarrow> taskData \<Rightarrow> task" where
  "spreadTaskData task d =
     task\<lparr>title := title d, description := description d, status := status d,
          priority := priority d, assignedTo := assignedTo d,
          estimatedHours := estimatedHours d, category := category d\<rparr>"

text \<open>
  \<^verbatim>\<open>{ ...taskData, id: generateId(), createdAt: new Date() }\<close>. The generated id and the
  clock are arguments: \<open>newId\<close> is what \<^verbatim>\<open>generateId()\<close> returned and \<open>now\<close> what
  \<^verbatim>\<open>new Date()\<close> read.
\<close>

definition newTask :: "taskData \<Rightarrow> string \<Rightarrow> int \<Rightarrow> task" where
  "newTask d newId now =
     \<lparr>title = title d, description = description d, status = status d,
      priority = priority d, assignedTo = assignedTo d,
      estimatedHours = estimatedHours d, category = category d,
      id_task = newId, createdAt = now, activatedAt = None, completedAt = None\<rparr>"

definition handleTaskSubmit :: "app \<Rightarrow> taskData \<Rightarrow> string \<Rightarrow> int \<Rightarrow> app" where
  "handleTaskSubmit st d newId now =
     (let tasks' =
            (case editingTask st of
               Some e \<Rightarrow>
                 map (\<lambda>task. if id_task task = id_task e then spreadTaskData task d else task)
                   (tasks st)
             | None \<Rightarrow> tasks st @ [newTask d newId now]);
          categories' =
            (if category d \<notin> set (categories st) then categories st @ [category d]
             else categories st)
      in st\<lparr>tasks := tasks', categories := categories',
             showTaskForm := False, editingTask := None\<rparr>)"

section \<open>Lifecycle engine: \<^verbatim>\<open>handleStatusChange\<close> (setStatus)\<close>

text \<open>
  The body of the \<^verbatim>\<open>map\<close> callback for a task whose id matches: \<^verbatim>\<open>updates\<close> always holds
  the new status, and one of three branches adds a timestamp field (an assignment of
  \<^verbatim>\<open>undefined\<close> in the third); \<^verbatim>\<open>{ ...task, ...updates }\<close> then overwrites those fields.
  The source reads the clock inside the callback, once for each task with the id; the
  model takes one reading \<open>now\<close> for the call.
\<close>

definition applyUpdates :: "status \<Rightarrow> int \<Rightarrow> task \<Rightarrow> task" where
  "applyUpdates newStatus now task =
     (if newStatus = Active \<and> status task = Pending
        then task\<lparr>status := newStatus, activatedAt := Some now\<rparr>
      else if newStatus = Completed
        then task\<lparr>status := newStatus, completedAt := Some now\<rparr>
      else if newStatus = Pending \<and> status task = Active
        then task\<lparr>status := newStatus, activatedAt := None\<rparr>
      else task\<lparr>status := newStatus\<rparr>)"

definition handleStatusChange :: "app \<Rightarrow> string \<Rightarrow> status \<Rightarrow> int \<Rightarrow> app" where
  "handleStatusChange st taskId newStatus now =
     st\<lparr>tasks :=
          map (\<lambda>task. if id_task task = taskId then applyUpdates newStatus now task else task)
            (tasks st)\<rparr>"

section \<open>Lifecycle: effect of one status change\<close>

lemma applyUpdates_status: "status (applyUpdates s now t) = s"
  by (simp add: applyUpdates_def)

lemma applyUpdates_frame:
  "title (applyUpdates s now t) = title t"
  "description (applyUpdates s now t) = description t"
  "priority (applyUpdates s now t) = priority t"
  "assignedTo (applyUpdates s now t) = assignedTo t"
  "estimatedHours (applyUpdates s now t) = estimatedHours t"
  "category (applyUpdates s now t) = category t"
  "id_task (applyUpdates s now t) = id_task t"
  "createdAt (applyUpdates s now t) = createdAt t"
  by (simp_all add: applyUpdates_def)

lemma applyUpdates_completed:
  "applyUpdates Completed now t = t\<lparr>status := Completed, completedAt := Some now\<rparr>"
  by (simp add: applyUpdates_def)

lemma length_handleStatusChange:
  "length (tasks (handleStatusChange st taskId s now)) = length (tasks st)"
  by (simp add: handleStatusChange_def)

lemma nth_handleStatusChange:
  "i < length (tasks st) \<Longrightarrow>
   tasks (handleStatusChange st taskId s now) ! i =
     (if id_task (tasks st ! i) = taskId then applyUpdates s now (tasks st ! i)
      else tasks st ! i)"
  by (simp add: handleStatusChange_def)

text \<open>
  C3. \<^verbatim>\<open>setStatus(id, 'completed')\<close> writes status \<open>completed\<close> and \<open>completedAt = now\<close>
  on every task with that id, whatever its previous status, and changes nothing else
  of it; so a pending task without \<open>activatedAt\<close> ends completed, with \<open>completedAt\<close>
  set and \<open>activatedAt\<close> still absent.
\<close>

theorem setStatus_completed_sets_completedAt:
  assumes "i < length (tasks st)" and "id_task (tasks st ! i) = taskId"
  shows "tasks (handleStatusChange st taskId Completed now) ! i =
           (tasks st ! i)\<lparr>status := Completed, completedAt := Some now\<rparr>
         \<and> status (tasks (handleStatusChange st taskId Completed now) ! i) = Completed
         \<and> completedAt (tasks (handleStatusChange st taskId Completed now) ! i) = Some now
         \<and> activatedAt (tasks (handleStatusChange st taskId Completed now) ! i) =
             activatedAt (tasks st ! i)"
  using assms by (simp add: nth_handleStatusChange applyUpdates_completed)


text \<open>Concrete data for the instances below.\<close>

definition exampleData :: "status \<Rightarrow> taskData" where
  "exampleData s =
     \<lparr>title = str ''Revision'', description = str ''Inspeccion de la planta'', status = s,
      priority = Medium, assignedTo = [], estimatedHours = 2, category = ''Calidad''\<rparr>"

definition emptyStore :: app where
  "emptyStore = \<lparr>tasks = [], categories = [], showTaskForm = False, editingTask = None\<rparr>"

theorem setStatus_completed_sets_completedAt_witness:
  "status (tasks (handleStatusChange
       (handleTaskSubmit emptyStore (exampleData Pending) ''t2'' 1000) ''t2'' Completed 2000) ! 0)
     = Completed
   \<and> completedAt (tasks (handleStatusChange
       (handleTaskSubmit emptyStore (exampleData Pending) ''t2'' 1000) ''t2'' Completed 2000) ! 0)
     = Some 2000
   \<and> activatedAt (tasks (handleStatusChange
       (handleTaskSubmit emptyStore (exampleData Pending) ''t2'' 1000) ''t2'' Completed 2000) ! 0)
     = None"
  using setStatus_completed_sets_completedAt
    [of 0 "handleTaskSubmit emptyStore (exampleData Pending) ''t2'' 1000" "''t2''" 2000]
  by (simp add: handleTaskSubmit_def emptyStore_def newTask_def exampleData_def)

lemma tasks_createTask:
  "editingTask st = None \<Longrightarrow>
   tasks (handleTaskSubmit st d newId now) = tasks st @ [newTask d newId now]"
  by (simp add: handleTaskSubmit_def)

lemma last_handleStatusChange:
  "tasks st \<noteq> [] \<Longrightarrow>
   last (tasks (handleStatusChange st taskId s now)) =
     (if id_task (last (tasks st)) = taskId then applyUpdates s now (last (tasks st))
      else last (tasks st))"
  by (simp add: handleStatusChange_def last_map)

text \<open>
  C4 (scenario A). A task created with status \<open>pending\<close> is the last of the list, with
  no \<open>activatedAt\<close>; \<^verbatim>\<open>setStatus(T1, 'active')\<close> makes it active with
  \<open>activatedAt = now\<close>; \<^verbatim>\<open>setStatus(T1, 'pending')\<close> after that makes it pending with
  \<open>activatedAt\<close> absent again.
\<close>

theorem scenario_A_activate_then_pause:
  fixes st :: app and d :: taskData and newId :: string and t0 t1 t2 :: int
  assumes "editingTask st = None" and "status d = Pending"
  defines "st1 \<equiv> handleTaskSubmit st d newId t0"
  defines "st2 \<equiv> handleStatusChange st1 newId Active t1"
  defines "st3 \<equiv> handleStatusChange st2 newId Pending t2"
  shows "last (tasks st1) = newTask d newId t0
       \<and> status (last (tasks st1)) = Pending
       \<and> status (last (tasks st2)) = Active
       \<and> activatedAt (last (tasks st2)) = Some t1
       \<and> status (last (tasks st3)) = Pending
       \<and> activatedAt (last (tasks st3)) = None"
proof -
  have t1: "tasks st1 = tasks st @ [newTask d newId t0]"
    unfolding st1_def using assms(1) by (rule tasks_createTask)
  have l1: "last (tasks st1) = newTask d newId t0"
    by (simp add: t1)
  have s1: "status (last (tasks st1)) = Pending" "id_task (last (tasks st1)) = newId"
    by (simp_all add: l1 newTask_def assms(2))
  have ne1: "tasks st1 \<noteq> []"
    by (simp add: t1)
  have l2: "last (tasks st2) = applyUpdates Active t1 (last (tasks st1))"
    unfolding st2_def using ne1 s1(2) by (simp add: last_handleStatusChange)
  have s2: "status (last (tasks st2)) = Active" "activatedAt (last (tasks st2)) = Some t1"
    "id_task (last (tasks st2)) = newId"
    using s1 by (simp_all add: l2 applyUpdates_def)
  have ne2: "tasks st2 \<noteq> []"
    unfolding st2_def using ne1 by (simp add: handleStatusChange_def)
  have l3: "last (tasks st3) = applyUpdates Pending t2 (last (tasks st2))"
    unfolding st3_def using ne2 s2(3) by (simp add: last_handleStatusChange)
  have s3: "status (last (tasks st3)) = Pending" "activatedAt (last (tasks st3)) = None"
    using s2 by (simp_all add: l3 applyUpdates_def)
  from l1 s1(1) s2(1,2) s3 show ?thesis by simp
qed

theorem scenario_A_activate_then_pause_witness:
  "status (last (tasks (handleStatusChange
       (handleTaskSubmit emptyStore (exampleData Pending) ''t1'' 1000) ''t1'' Active 2000)))
     = Active
   \<and> activatedAt (last (tasks (handleStatusChange
       (handleTaskSubmit emptyStore (exampleData Pending) ''t1'' 1000) ''t1'' Active 2000)))
     = Some 2000
   \<and> status (last (tasks (handleStatusChange (handleStatusChange
       (handleTaskSubmit emptyStore (exampleData Pending) ''t1'' 1000) ''t1'' Active 2000)
         ''t1'' Pending 3000)))
     = Pending
   \<and> activatedAt (last (tasks (handleStatusChange (handleStatusChange
       (handleTaskSubmit emptyStore (exampleData Pending) ''t1'' 1000) ''t1'' Active 2000)
         ''t1'' Pending 3000)))
     = None"
  using scenario_A_activate_then_pause
    [of emptyStore "exampleData Pending" "''t1''" 1000 2000 3000]
  by (simp add: emptyStore_def exampleData_def)

text \<open>
  C10. \<^verbatim>\<open>setStatus\<close> keeps the length and the order of the list (the ids, position by
  position), returns every task with another id as it was, and on any task changes at
  most \<open>status\<close>, \<open>activatedAt\<close> and \<open>completedAt\<close>: the task after the call is the task
  before with those three fields overwritten, so \<open>title\<close>, \<open>description\<close>, \<open>priority\<close>,
  \<open>assignedTo\<close>, \<open>category\<close>, \<open>estimatedHours\<close>, \<open>createdAt\<close> and the id are the same.
\<close>

theorem setStatus_frame:
  fixes st :: app and taskId :: string and newStatus :: status and now :: int
  defines "st' \<equiv> handleStatusChange st taskId newStatus now"
  shows "length (tasks st') = length (tasks st)
       \<and> map id_task (tasks st') = map id_task (tasks st)
       \<and> (\<forall>i < length (tasks st).
            (id_task (tasks st ! i) \<noteq> taskId \<longrightarrow> tasks st' ! i = tasks st ! i)
          \<and> tasks st' ! i =
              (tasks st ! i)\<lparr>status := status (tasks st' ! i),
                             activatedAt := activatedAt (tasks st' ! i),
                             completedAt := completedAt (tasks st' ! i)\<rparr>
          \<and> title (tasks st' ! i) = title (tasks st ! i)
          \<and> description (tasks st' ! i) = description (tasks st ! i)
          \<and> priority (tasks st' ! i) = priority (tasks st ! i)
          \<and> assignedTo (tasks st' ! i) = assignedTo (tasks st ! i)
          \<and> category (tasks st' ! i) = category (tasks st ! i)
          \<and> estimatedHours (tasks st' ! i) = estimatedHours (tasks st ! i)
          \<and> createdAt (tasks st' ! i) = createdAt (tasks st ! i))"
proof -
  have len: "length (tasks st') = length (tasks st)"
    unfolding st'_def by (rule length_handleStatusChange)
  have ids: "map id_task (tasks st') = map id_task (tasks st)"
    unfolding st'_def by (simp add: handleStatusChange_def applyUpdates_frame)
  have each: "(id_task (tasks st ! i) \<noteq> taskId \<longrightarrow> tasks st' ! i = tasks st ! i)
          \<and> tasks st' ! i =
              (tasks st ! i)\<lparr>status := status (tasks st' ! i),
                             activatedAt := activatedAt (tasks st' ! i),
                             completedAt := completedAt (tasks st' ! i)\<rparr>
          \<and> title (tasks st' ! i) = title (tasks st ! i)
          \<and> description (tasks st' ! i) = description (tasks st ! i)
          \<and> priority (tasks st' ! i) = priority (tasks st ! i)
          \<and> assignedTo (tasks st' ! i) = assignedTo (tasks st ! i)
          \<and> category (tasks st' ! i) = category (tasks st ! i)
          \<and> estimatedHours (tasks st' ! i) = estimatedHours (tasks st ! i)
          \<and> createdAt (tasks st' ! i) = createdAt (tasks st ! i)"
    if "i < length (tasks st)" for i
  proof (cases "id_task (tasks st ! i) = taskId")
    case True
    with that have "tasks st' ! i = applyUpdates newStatus now (tasks st ! i)"
      unfolding st'_def by (simp add: nth_handleStatusChange)
    then show ?thesis using True by (simp add: applyUpdates_def)
  next
    case False
    with that have "tasks st' ! i = tasks st ! i"
      unfolding st'_def by (simp add: nth_handleStatusChange)
    then show ?thesis by simp
  qed
  from len ids each show ?thesis by blast
qed


definition twoTasks :: app where
  "twoTasks =
     handleTaskSubmit (handleTaskSubmit emptyStore (exampleData Pending) ''t1'' 1000)
       (exampleData Active) ''t2'' 1100"

lemma tasks_twoTasks:
  "tasks twoTasks = [newTask (exampleData Pending) ''t1'' 1000, newTask (exampleData Active) ''t2'' 1100]"
  by (simp add: twoTasks_def handleTaskSubmit_def emptyStore_def)

theorem setStatus_frame_witness:
  "length (tasks (handleStatusChange twoTasks ''t1'' Active 2000)) = 2
   \<and> tasks (handleStatusChange twoTasks ''t1'' Active 2000) ! 1 = tasks twoTasks ! 1
   \<and> title (tasks (handleStatusChange twoTasks ''t1'' Active 2000) ! 0) = str ''Revision''
   \<and> createdAt (tasks (handleStatusChange twoTasks ''t1'' Active 2000) ! 0) = 1000"
proof -
  note fr = setStatus_frame [of twoTasks "''t1''" Active 2000]
  have len: "length (tasks (handleStatusChange twoTasks ''t1'' Active 2000)) = 2"
    using fr by (simp add: tasks_twoTasks)
  have one: "tasks (handleStatusChange twoTasks ''t1'' Active 2000) ! 1 = tasks twoTasks ! 1"
  proof -
    have "1 < length (tasks twoTasks)" "id_task (tasks twoTasks ! 1) \<noteq> ''t1''"
      by (simp_all add: tasks_twoTasks newTask_def)
    with fr show ?thesis by blast
  qed
  have zero: "title (tasks (handleStatusChange twoTasks ''t1'' Active 2000) ! 0) = title (tasks twoTasks ! 0)"
    "createdAt (tasks (handleStatusChange twoTasks ''t1'' Active 2000) ! 0) = createdAt (tasks twoTasks ! 0)"
  proof -
    have "0 < length (tasks twoTasks)"
      by (simp add: tasks_twoTasks)
    with fr show
      "title (tasks (handleStatusChange twoTasks ''t1'' Active 2000) ! 0) = title (tasks twoTasks ! 0)"
      "createdAt (tasks (handleStatusChange twoTasks ''t1'' Active 2000) ! 0) = createdAt (tasks twoTasks ! 0)"
      by blast+
  qed
  from len one zero show ?thesis
    by (simp add: tasks_twoTasks newTask_def exampleData_def)
qed

section \<open>Entity store: updateTask\<close>

text \<open>
  C8. \<^verbatim>\<open>updateTask(id, input)\<close> is \<^verbatim>\<open>handleTaskSubmit(input)\<close> while a task with that id
  is being edited. Every task with the id takes the seven fields of the input and keeps
  its \<open>id\<close>, \<open>createdAt\<close>, \<open>activatedAt\<close> and \<open>completedAt\<close>; every other task is returned
  as it was; and when no task has the id, the list of tasks is the same list.
\<close>

theorem updateTask_replaces_fields:
  fixes st :: app and e :: task and d :: taskData and newId :: string and now :: int
  assumes "editingTask st = Some e"
  defines "st' \<equiv> handleTaskSubmit st d newId now"
  shows "length (tasks st') = length (tasks st)
       \<and> (\<forall>i < length (tasks st).
            (id_task (tasks st ! i) = id_task e \<longrightarrow>
               taskData.truncate (tasks st' ! i) = d
             \<and> title (tasks st' ! i) = title d
             \<and> description (tasks st' ! i) = description d
             \<and> status (tasks st' ! i) = status d
             \<and> priority (tasks st' ! i) = priority d
             \<and> assignedTo (tasks st' ! i) = assignedTo d
             \<and> estimatedHours (tasks st' ! i) = estimatedHours d
             \<and> category (tasks st' ! i) = category d
             \<and> id_task (tasks st' ! i) = id_task (tasks st ! i)
             \<and> createdAt (tasks st' ! i) = createdAt (tasks st ! i)
             \<and> activatedAt (tasks st' ! i) = activatedAt (tasks st ! i)
             \<and> completedAt (tasks st' ! i) = completedAt (tasks st ! i))
          \<and> (id_task (tasks st ! i) \<noteq> id_task e \<longrightarrow> tasks st' ! i = tasks st ! i))
       \<and> (id_task e \<notin> id_task ` set (tasks st) \<longrightarrow> tasks st' = tasks st)"
proof -
  have ts: "tasks st' =
      map (\<lambda>task. if id_task task = id_task e then spreadTaskData task d else task) (tasks st)"
    unfolding st'_def using assms(1) by (simp add: handleTaskSubmit_def)
  have len: "length (tasks st') = length (tasks st)"
    by (simp add: ts)
  have each: "(id_task (tasks st ! i) = id_task e \<longrightarrow>
               taskData.truncate (tasks st' ! i) = d
             \<and> title (tasks st' ! i) = title d
             \<and> description (tasks st' ! i) = description d
             \<and> status (tasks st' ! i) = status d
             \<and> priority (tasks st' ! i) = priority d
             \<and> assignedTo (tasks st' ! i) = assignedTo d
             \<and> estimatedHours (tasks st' ! i) = estimatedHours d
             \<and> category (tasks st' ! i) = category d
             \<and> id_task (tasks st' ! i) = id_task (tasks st ! i)
             \<and> createdAt (tasks st' ! i) = createdAt (tasks st ! i)
             \<and> activatedAt (tasks st' ! i) = activatedAt (tasks st ! i)
             \<and> completedAt (tasks st' ! i) = completedAt (tasks st ! i))
          \<and> (id_task (tasks st ! i) \<noteq> id_task e \<longrightarrow> tasks st' ! i = tasks st ! i)"
    if "i < length (tasks st)" for i
    using that by (simp add: ts spreadTaskData_def taskData.truncate_def)
  have absent: "tasks st' = tasks st" if "id_task e \<notin> id_task ` set (tasks st)"
  proof -
    have "map (\<lambda>task. if id_task task = id_task e then spreadTaskData task d else task) (tasks st)
        = map (\<lambda>task. task) (tasks st)"
      using that by (intro map_cong) (auto simp: image_iff)
    then show ?thesis by (simp add: ts)
  qed
  from len each absent show ?thesis by blast
qed

definition editedData :: taskData where
  "editedData =
     \<lparr>title = str ''Calibracion'', description = str ''Equipos de medicion'', status = Active,
      priority = Urgent, assignedTo = [''4'', ''6''], estimatedHours = 6,
      category = ''Mantenimiento''\<rparr>"

theorem updateTask_replaces_fields_witness:
  "title (tasks (handleTaskSubmit (twoTasks\<lparr>editingTask := Some (tasks twoTasks ! 0)\<rparr>)
       editedData ''x'' 5000) ! 0) = str ''Calibracion''
   \<and> createdAt (tasks (handleTaskSubmit (twoTasks\<lparr>editingTask := Some (tasks twoTasks ! 0)\<rparr>)
       editedData ''x'' 5000) ! 0) = 1000
   \<and> tasks (handleTaskSubmit (twoTasks\<lparr>editingTask := Some (tasks twoTasks ! 0)\<rparr>)
       editedData ''x'' 5000) ! 1 = tasks twoTasks ! 1
   \<and> tasks (handleTaskSubmit
       (twoTasks\<lparr>editingTask := Some (newTask (exampleData Pending) ''t9'' 1)\<rparr>)
       editedData ''x'' 5000) = tasks twoTasks"
proof -
  let ?st = "twoTasks\<lparr>editingTask := Some (tasks twoTasks ! 0)\<rparr>"
  let ?su = "twoTasks\<lparr>editingTask := Some (newTask (exampleData Pending) ''t9'' 1)\<rparr>"
  note a = updateTask_replaces_fields [of ?st "tasks twoTasks ! 0" editedData "''x''" 5000]
  note b = updateTask_replaces_fields
    [of ?su "newTask (exampleData Pending) ''t9'' 1" editedData "''x''" 5000]
  have e: "editingTask ?st = Some (tasks twoTasks ! 0)"
    "editingTask ?su = Some (newTask (exampleData Pending) ''t9'' 1)"
    by simp_all
  have i0: "0 < length (tasks ?st)" "id_task (tasks ?st ! 0) = id_task (tasks twoTasks ! 0)"
    and i1: "1 < length (tasks ?st)" "id_task (tasks ?st ! 1) \<noteq> id_task (tasks twoTasks ! 0)"
    by (simp_all add: tasks_twoTasks newTask_def)
  have absent: "id_task (newTask (exampleData Pending) ''t9'' 1) \<notin> id_task ` set (tasks ?su)"
    by (simp add: tasks_twoTasks newTask_def)
  from a [OF e(1)] i0 have
    "title (tasks (handleTaskSubmit ?st editedData ''x'' 5000) ! 0) = title editedData"
    "createdAt (tasks (handleTaskSubmit ?st editedData ''x'' 5000) ! 0) = createdAt (tasks ?st ! 0)"
    by blast+
  moreover from a [OF e(1)] i1 have
    "tasks (handleTaskSubmit ?st editedData ''x'' 5000) ! 1 = tasks ?st ! 1"
    by blast
  moreover from b [OF e(2)] absent have
    "tasks (handleTaskSubmit ?su editedData ''x'' 5000) = tasks ?su"
    by blast
  ultimately show ?thesis
    by (simp add: tasks_twoTasks newTask_def editedData_def)
qed

section \<open>Personnel: \<^verbatim>\<open>handleAddPerson\<close> (createPersonnel)\<close>















section \<open>Runs of createTask and setStatus\<close>

text \<open>
  An operation of a run, with what the id generator and the clock returned when it
  was executed. \<open>CreateTask\<close> is \<^verbatim>\<open>handleTaskSubmit\<close> (in a state where no task is being
  edited it is \<^verbatim>\<open>createTask\<close>), \<open>SetStatus\<close> is \<^verbatim>\<open>handleStatusChange\<close>.
\<close>

datatype op = CreateTask taskData string int | SetStatus string status int

fun applyOp :: "app \<Rightarrow> op \<Rightarrow> app" where
  "applyOp st (CreateTask d newId now) = handleTaskSubmit st d newId now"
| "applyOp st (SetStatus taskId newStatus now) = handleStatusChange st taskId newStatus now"

fun run :: "app \<Rightarrow> op list \<Rightarrow> app" where
  "run st [] = st"
| "run st (x # xs) = run (applyOp st x) xs"

text \<open>
  The restriction under which the equivalence of \<open>completed\<close> and \<open>completedAt\<close> is
  kept: no task is created completed, and no task that is completed is set to another
  status (\<open>completed\<close> is terminal).
\<close>

fun opAllowed :: "app \<Rightarrow> op \<Rightarrow> bool" where
  "opAllowed st (CreateTask d newId now) \<longleftrightarrow> status d \<noteq> Completed"
| "opAllowed st (SetStatus taskId newStatus now) \<longleftrightarrow>
     newStatus = Completed
     \<or> list_all (\<lambda>t. id_task t = taskId \<longrightarrow> status t \<noteq> Completed) (tasks st)"

fun runAllowed :: "app \<Rightarrow> op list \<Rightarrow> bool" where
  "runAllowed st [] \<longleftrightarrow> True"
| "runAllowed st (x # xs) \<longleftrightarrow> opAllowed st x \<and> runAllowed (applyOp st x) xs"

definition completedIffCompletedAt :: "task \<Rightarrow> bool" where
  "completedIffCompletedAt t \<longleftrightarrow> (status t = Completed) = (completedAt t \<noteq> None)"

text \<open>
  \<open>setPendingFrom s st ops i\<close>: some operation of the run \<open>ops\<close> from \<open>st\<close> is a
  \<^verbatim>\<open>setStatus(id, 'pending')\<close> that meets the task at position \<open>i\<close> while its status is
  \<open>s\<close>. With \<open>s = Active\<close> this is a pause, with \<open>s = Completed\<close> a reopening.
\<close>

fun setPendingFrom :: "status \<Rightarrow> app \<Rightarrow> op list \<Rightarrow> nat \<Rightarrow> bool" where
  "setPendingFrom s st [] i \<longleftrightarrow> False"
| "setPendingFrom s st (x # xs) i \<longleftrightarrow>
     (case x of
        SetStatus taskId newStatus now \<Rightarrow>
          newStatus = Pending \<and> i < length (tasks st)
          \<and> id_task (tasks st ! i) = taskId \<and> status (tasks st ! i) = s
      | CreateTask d newId now \<Rightarrow> False)
     \<or> setPendingFrom s (applyOp st x) xs i"

lemma editingTask_applyOp: "editingTask st = None \<Longrightarrow> editingTask (applyOp st x) = None"
  by (cases x) (simp_all add: handleTaskSubmit_def handleStatusChange_def)

lemma applyUpdates_keeps_inv:
  "completedIffCompletedAt t \<Longrightarrow> s = Completed \<or> status t \<noteq> Completed \<Longrightarrow>
   completedIffCompletedAt (applyUpdates s now t)"
  by (auto simp: completedIffCompletedAt_def applyUpdates_def)

lemma applyOp_keeps_inv:
  assumes "editingTask st = None" and "list_all completedIffCompletedAt (tasks st)"
    and "opAllowed st x"
  shows "list_all completedIffCompletedAt (tasks (applyOp st x))"
proof (cases x)
  case (CreateTask d newId now)
  with assms show ?thesis
    by (simp add: tasks_createTask completedIffCompletedAt_def newTask_def)
next
  case (SetStatus taskId newStatus now)
  with assms show ?thesis
    by (auto simp: handleStatusChange_def list_all_iff intro: applyUpdates_keeps_inv)
qed

lemma run_keeps_inv:
  "editingTask st = None \<Longrightarrow> list_all completedIffCompletedAt (tasks st) \<Longrightarrow>
   runAllowed st ops \<Longrightarrow> list_all completedIffCompletedAt (tasks (run st ops))"
proof (induction ops arbitrary: st)
  case Nil
  then show ?case by simp
next
  case (Cons x xs)
  from Cons.prems have "editingTask (applyOp st x) = None"
    by (simp add: editingTask_applyOp)
  moreover from Cons.prems have "list_all completedIffCompletedAt (tasks (applyOp st x))"
    by (simp add: applyOp_keeps_inv)
  moreover from Cons.prems have "runAllowed (applyOp st x) xs"
    by simp
  ultimately show ?case
    using Cons.IH by simp
qed
text \<open>
  C1 (as amended). From a store in which no task is being edited and every task
  satisfies the equivalence, every run of createTask with a status other than
  \<open>completed\<close> and of setStatus that never sets a completed task to another status
  ends in a store in which, for every task, the status is \<open>completed\<close> exactly when
  \<open>completedAt\<close> is present.
\<close>

theorem completed_iff_completedAt_terminal:
  assumes "editingTask st = None"
    and "\<forall>t \<in> set (tasks st). (status t = Completed) = (completedAt t \<noteq> None)"
    and "runAllowed st ops"
  shows "\<forall>t \<in> set (tasks (run st ops)). (status t = Completed) = (completedAt t \<noteq> None)"
proof -
  from assms(2) have "list_all completedIffCompletedAt (tasks st)"
    by (simp add: list_all_iff completedIffCompletedAt_def)
  with assms(1,3) have "list_all completedIffCompletedAt (tasks (run st ops))"
    by (simp add: run_keeps_inv)
  then show ?thesis
    by (simp add: list_all_iff completedIffCompletedAt_def)
qed

text \<open>
  The claim as stated fails: a task completed and then set back to \<open>pending\<close> keeps
  its \<open>completedAt\<close>.
\<close>

theorem completed_iff_completedAt_counterexample:
  "status (hd (tasks (run emptyStore
       [CreateTask (exampleData Pending) ''t1'' 1000,
        SetStatus ''t1'' Completed 2000,
        SetStatus ''t1'' Pending 3000]))) = Pending
   \<and> completedAt (hd (tasks (run emptyStore
       [CreateTask (exampleData Pending) ''t1'' 1000,
        SetStatus ''t1'' Completed 2000,
        SetStatus ''t1'' Pending 3000]))) = Some 2000"
  by (simp add: emptyStore_def handleTaskSubmit_def handleStatusChange_def newTask_def
      applyUpdates_def exampleData_def)

theorem completed_iff_completedAt_terminal_witness:
  "status (hd (tasks (run emptyStore
       [CreateTask (exampleData Pending) ''t1'' 1000,
        SetStatus ''t1'' Active 2000,
        SetStatus ''t1'' Completed 3000]))) = Completed
   \<and> completedAt (hd (tasks (run emptyStore
       [CreateTask (exampleData Pending) ''t1'' 1000,
        SetStatus ''t1'' Active 2000,
        SetStatus ''t1'' Completed 3000]))) \<noteq> None"
proof -
  let ?ops = "[CreateTask (exampleData Pending) ''t1'' 1000,
        SetStatus ''t1'' Active 2000, SetStatus ''t1'' Completed 3000]"
  have ts: "tasks (run emptyStore ?ops) =
      [(newTask (exampleData Pending) ''t1'' 1000)
         \<lparr>status := Completed, activatedAt := Some 2000, completedAt := Some 3000\<rparr>]"
    by (simp add: emptyStore_def handleTaskSubmit_def handleStatusChange_def newTask_def
        applyUpdates_def exampleData_def)
  have a: "editingTask emptyStore = None"
    "\<forall>t \<in> set (tasks emptyStore). (status t = Completed) = (completedAt t \<noteq> None)"
    by (simp_all add: emptyStore_def)
  have b: "runAllowed emptyStore ?ops"
    by (simp add: emptyStore_def handleTaskSubmit_def handleStatusChange_def newTask_def
        applyUpdates_def exampleData_def)
  have "hd (tasks (run emptyStore ?ops)) \<in> set (tasks (run emptyStore ?ops))"
    unfolding ts by simp
  with completed_iff_completedAt_terminal [OF a b]
  have "(status (hd (tasks (run emptyStore ?ops))) = Completed)
      = (completedAt (hd (tasks (run emptyStore ?ops))) \<noteq> None)"
    by blast
  moreover have "status (hd (tasks (run emptyStore ?ops))) = Completed"
    unfolding ts by simp
  ultimately show ?thesis by simp
qed

lemma pending_activated_origin:
  assumes "editingTask st = None"
    and "i < length (tasks (run st ops))"
    and "status (tasks (run st ops) ! i) = Pending"
    and "activatedAt (tasks (run st ops) ! i) \<noteq> None"
  shows "(i < length (tasks st) \<and> status (tasks st ! i) = Pending
            \<and> activatedAt (tasks st ! i) \<noteq> None)
         \<or> setPendingFrom Completed st ops i"
  using assms
proof (induction ops arbitrary: st)
  case Nil
  then show ?case by simp
next
  case (Cons x xs)
  let ?st' = "applyOp st x"
  have e': "editingTask ?st' = None"
    using Cons.prems(1) by (rule editingTask_applyOp)
  from Cons.IH [OF e'] Cons.prems(2-4)
  consider (here) "i < length (tasks ?st')" "status (tasks ?st' ! i) = Pending"
      "activatedAt (tasks ?st' ! i) \<noteq> None"
    | (later) "setPendingFrom Completed ?st' xs i"
    by auto
  then show ?case
  proof cases
    case later
    then show ?thesis by simp
  next
    case here
    show ?thesis
    proof (cases x)
      case (CreateTask d newId now)
      then have ts: "tasks ?st' = tasks st @ [newTask d newId now]"
        using Cons.prems(1) by (simp add: tasks_createTask)
      show ?thesis
      proof (cases "i < length (tasks st)")
        case True
        with here ts show ?thesis by (simp add: nth_append)
      next
        case False
        with here(1) ts have "tasks ?st' ! i = newTask d newId now"
          by (simp add: nth_append less_Suc_eq)
        with here(3) show ?thesis by (simp add: newTask_def)
      qed
    next
      case (SetStatus taskId newStatus now)
      from here(1) have len: "i < length (tasks st)"
        by (simp add: SetStatus length_handleStatusChange)
      then have nth: "tasks ?st' ! i =
          (if id_task (tasks st ! i) = taskId then applyUpdates newStatus now (tasks st ! i)
           else tasks st ! i)"
        by (simp add: SetStatus nth_handleStatusChange)
      show ?thesis
      proof (cases "id_task (tasks st ! i) = taskId")
        case False
        with nth here len show ?thesis by simp
      next
        case True
        with nth have upd: "tasks ?st' ! i = applyUpdates newStatus now (tasks st ! i)"
          by simp
        with here(2) have ns: "newStatus = Pending"
          by (simp add: applyUpdates_status)
        show ?thesis
        proof (cases "status (tasks st ! i)")
          case Pending
          with upd ns here(3) len show ?thesis by (simp add: applyUpdates_def)
        next
          case Active
          with upd ns here(3) show ?thesis by (simp add: applyUpdates_def)
        next
          case Completed
          with len True ns show ?thesis by (simp add: SetStatus)
        qed
      qed
    qed
  qed
qed

text \<open>
  C2 (as amended). In a run from a store in which no pending task has \<open>activatedAt\<close>,
  a task that ends pending with \<open>activatedAt\<close> present was, at some operation of the
  run, set to \<open>pending\<close> while it was completed (reopened); and a pause, that is
  \<^verbatim>\<open>setStatus(id, 'pending')\<close> on an active task, always leaves \<open>activatedAt\<close> absent.
\<close>

theorem pending_with_activatedAt_by_reopening:
  assumes "editingTask st = None"
    and "\<forall>t \<in> set (tasks st). status t = Pending \<longrightarrow> activatedAt t = None"
    and "i < length (tasks (run st ops))"
    and "status (tasks (run st ops) ! i) = Pending"
    and "activatedAt (tasks (run st ops) ! i) \<noteq> None"
  shows "setPendingFrom Completed st ops i
       \<and> (\<forall>st' taskId now j. j < length (tasks st') \<and> id_task (tasks st' ! j) = taskId
              \<and> status (tasks st' ! j) = Active
            \<longrightarrow> status (tasks (handleStatusChange st' taskId Pending now) ! j) = Pending
              \<and> activatedAt (tasks (handleStatusChange st' taskId Pending now) ! j) = None)"
proof
  from pending_activated_origin [OF assms(1,3,4,5)] assms(2)
  show "setPendingFrom Completed st ops i"
    by (auto simp: all_set_conv_all_nth)
next
  show "\<forall>st' taskId now j. j < length (tasks st') \<and> id_task (tasks st' ! j) = taskId
              \<and> status (tasks st' ! j) = Active
            \<longrightarrow> status (tasks (handleStatusChange st' taskId Pending now) ! j) = Pending
              \<and> activatedAt (tasks (handleStatusChange st' taskId Pending now) ! j) = None"
    by (simp add: nth_handleStatusChange applyUpdates_def)
qed

text \<open>
  The claim as stated fails: the run below ends with the task pending and
  \<open>activatedAt\<close> present, and no operation of it is a pause of that task (it was set
  to \<open>pending\<close> while completed).
\<close>

theorem pending_with_activatedAt_counterexample:
  "status (tasks (run emptyStore
       [CreateTask (exampleData Pending) ''t1'' 1000,
        SetStatus ''t1'' Active 2000,
        SetStatus ''t1'' Completed 3000,
        SetStatus ''t1'' Pending 4000]) ! 0) = Pending
   \<and> activatedAt (tasks (run emptyStore
       [CreateTask (exampleData Pending) ''t1'' 1000,
        SetStatus ''t1'' Active 2000,
        SetStatus ''t1'' Completed 3000,
        SetStatus ''t1'' Pending 4000]) ! 0) = Some 2000
   \<and> \<not> setPendingFrom Active emptyStore
       [CreateTask (exampleData Pending) ''t1'' 1000,
        SetStatus ''t1'' Active 2000,
        SetStatus ''t1'' Completed 3000,
        SetStatus ''t1'' Pending 4000] 0"
  by (simp add: emptyStore_def handleTaskSubmit_def handleStatusChange_def newTask_def
      applyUpdates_def exampleData_def)

theorem pending_with_activatedAt_by_reopening_witness:
  "setPendingFrom Completed emptyStore
       [CreateTask (exampleData Pending) ''t1'' 1000,
        SetStatus ''t1'' Active 2000,
        SetStatus ''t1'' Completed 3000,
        SetStatus ''t1'' Pending 4000] 0
   \<and> activatedAt (tasks (handleStatusChange twoTasks ''t2'' Pending 2000) ! 1) = None"
proof -
  let ?ops = "[CreateTask (exampleData Pending) ''t1'' 1000,
        SetStatus ''t1'' Active 2000, SetStatus ''t1'' Completed 3000,
        SetStatus ''t1'' Pending 4000]"
  have ts: "tasks (run emptyStore ?ops) =
      [(newTask (exampleData Pending) ''t1'' 1000)
         \<lparr>status := Pending, activatedAt := Some 2000, completedAt := Some 3000\<rparr>]"
    by (simp add: emptyStore_def handleTaskSubmit_def handleStatusChange_def newTask_def
        applyUpdates_def exampleData_def)
  have a: "editingTask emptyStore = None"
    "\<forall>t \<in> set (tasks emptyStore). status t = Pending \<longrightarrow> activatedAt t = None"
    by (simp_all add: emptyStore_def)
  have b: "0 < length (tasks (run emptyStore ?ops))"
    "status (tasks (run emptyStore ?ops) ! 0) = Pending"
    "activatedAt (tasks (run emptyStore ?ops) ! 0) \<noteq> None"
    unfolding ts by simp_all
  note th = pending_with_activatedAt_by_reopening [OF a b]
  have c: "1 < length (tasks twoTasks) \<and> id_task (tasks twoTasks ! 1) = ''t2''
      \<and> status (tasks twoTasks ! 1) = Active"
    by (simp add: tasks_twoTasks newTask_def exampleData_def)
  from th have "setPendingFrom Completed emptyStore ?ops 0"
    by (rule conjunct1)
  moreover from th c
  have "activatedAt (tasks (handleStatusChange twoTasks ''t2'' Pending 2000) ! 1) = None"
    by blast
  ultimately show ?thesis by simp
qed

section \<open>Filter engine: \<^verbatim>\<open>filteredTasks\<close> (listFilteredTasks)\<close>

text \<open>
  \<^verbatim>\<open>s.includes(pat)\<close> on strings: \<open>pat\<close> occurs in \<open>s\<close> at some position (the empty
  pattern occurs everywhere). The name \<open>includes\<close> is a keyword of Isabelle, hence
  \<open>includesStr\<close>.
\<close>

fun startsWith :: "'a list \<Rightarrow> 'a list \<Rightarrow> bool" where
  "startsWith s [] \<longleftrightarrow> True"
| "startsWith [] (p # ps) \<longleftrightarrow> False"
| "startsWith (c # cs) (p # ps) \<longleftrightarrow> c = p \<and> startsWith cs ps"

fun includesStr :: "'a list \<Rightarrow> 'a list \<Rightarrow> bool" where
  "includesStr [] pat \<longleftrightarrow> pat = []"
| "includesStr (c # cs) pat \<longleftrightarrow> startsWith (c # cs) pat \<or> includesStr cs pat"

text \<open>
  The five filter values held by \<^verbatim>\<open>App\<close>; each is a free string, the search term a
  string of code units.
\<close>

record filters =
  searchTerm :: jsString
  statusFilter :: string
  priorityFilter :: string
  categoryFilter :: string
  personnelFilter :: string

text \<open>
  The callback of \<^verbatim>\<open>tasks.filter\<close>, with its early returns in the order of the source.
  An empty string is falsy, so the search test is skipped for an empty search term.
  \<^verbatim>\<open>String.prototype.toLowerCase\<close> belongs to the platform, not to the repository: it is
  the argument \<open>lower\<close>, and the filter is verified for every such function.
\<close>

definition filterCallback ::
    "(jsString \<Rightarrow> jsString) \<Rightarrow> filters \<Rightarrow> jsString \<Rightarrow> task \<Rightarrow> bool" where
  "filterCallback lower f searchLower task =
     (if searchTerm f \<noteq> [] \<and>
         \<not> (includesStr (lower (title task)) searchLower
            \<or> includesStr (lower (description task)) searchLower)
        then False
      else if statusFilter f \<noteq> ''all'' \<and> statusString (status task) \<noteq> statusFilter f
        then False
      else if priorityFilter f \<noteq> ''all'' \<and> priorityString (priority task) \<noteq> priorityFilter f
        then False
      else if categoryFilter f \<noteq> ''all'' \<and> category task \<noteq> categoryFilter f
        then False
      else if personnelFilter f \<noteq> ''all''
        then (if personnelFilter f = ''unassigned'' \<and> length (assignedTo task) > 0
                then False
              else if personnelFilter f \<noteq> ''unassigned''
                      \<and> personnelFilter f \<notin> set (assignedTo task)
                then False
              else True)
      else True)"

definition filteredTasks ::
    "(jsString \<Rightarrow> jsString) \<Rightarrow> filters \<Rightarrow> task list \<Rightarrow> task list" where
  "filteredTasks lower f ts =
     (if length ts = 0 then []
      else let searchLower = lower (searchTerm f)
           in filter (filterCallback lower f searchLower) ts)"

subsection \<open>Lower case on Basic Latin, Latin-1 and Greek\<close>

text \<open>
  \<^verbatim>\<open>String.prototype.toLowerCase\<close> (the default case conversion of Unicode) on strings
  whose code units are below 256 or Greek letters (capital alpha to omega, small alpha
  to omega). A capital letter moves up by 32. A capital sigma becomes the final small
  sigma when a cased letter precedes it and none follows it, characters that are
  ignored for case being skipped on both sides, and the small sigma otherwise. Code
  units outside these ranges are kept: the table does not cover them, and nothing
  below evaluates it on them.
\<close>

definition isCased :: "codeUnit \<Rightarrow> bool" where
  "isCased c \<longleftrightarrow>
     (0x41 \<le> c \<and> c \<le> 0x5A) \<or> (0x61 \<le> c \<and> c \<le> 0x7A)
     \<or> c = 0xAA \<or> c = 0xB5 \<or> c = 0xBA
     \<or> (0xC0 \<le> c \<and> c \<le> 0xD6) \<or> (0xD8 \<le> c \<and> c \<le> 0xF6) \<or> (0xF8 \<le> c \<and> c \<le> 0xFF)
     \<or> (0x391 \<le> c \<and> c \<le> 0x3A9 \<and> c \<noteq> 0x3A2) \<or> (0x3B1 \<le> c \<and> c \<le> 0x3C9)"

definition isCaseIgnorable :: "codeUnit \<Rightarrow> bool" where
  "isCaseIgnorable c \<longleftrightarrow>
     c \<in> set [0x27, 0x2E, 0x3A, 0x5E, 0x60, 0xA8, 0xAD, 0xAF, 0xB4, 0xB7, 0xB8]"

definition lowerUnit :: "codeUnit \<Rightarrow> codeUnit" where
  "lowerUnit c =
     (if (0x41 \<le> c \<and> c \<le> 0x5A) \<or> (0xC0 \<le> c \<and> c \<le> 0xDE \<and> c \<noteq> 0xD7)
         \<or> (0x391 \<le> c \<and> c \<le> 0x3A9 \<and> c \<noteq> 0x3A2)
      then c + 32 else c)"

text \<open>The first code unit that is not ignored for case is a cased letter.\<close>

definition casedNext :: "jsString \<Rightarrow> bool" where
  "casedNext s = (case dropWhile isCaseIgnorable s of [] \<Rightarrow> False | c # cs \<Rightarrow> isCased c)"

text \<open>\<open>lowerFrom rb s\<close>: the lower case of \<open>s\<close> when \<open>rev rb\<close> stands before it.\<close>

fun lowerFrom :: "jsString \<Rightarrow> jsString \<Rightarrow> jsString" where
  "lowerFrom rb [] = []"
| "lowerFrom rb (c # cs) =
     (if c = 0x3A3 then (if casedNext rb \<and> \<not> casedNext cs then 0x3C2 else 0x3C3)
      else lowerUnit c)
     # lowerFrom (c # rb) cs"

definition toLowerCase :: "jsString \<Rightarrow> jsString" where
  "toLowerCase s = lowerFrom [] s"

subsection \<open>The five predicates\<close>

text \<open>
  The search predicate as the code has it: the search term is empty, or its lower
  case occurs in the lower case of the title or of the description.
\<close>

definition occursIn :: "'a list \<Rightarrow> 'a list \<Rightarrow> bool" where
  "occursIn pat s \<longleftrightarrow> (\<exists>before after. s = before @ pat @ after)"

definition searchMatches :: "(jsString \<Rightarrow> jsString) \<Rightarrow> filters \<Rightarrow> task \<Rightarrow> bool" where
  "searchMatches lower f t \<longleftrightarrow>
     searchTerm f = [] \<or> occursIn (lower (searchTerm f)) (lower (title t))
     \<or> occursIn (lower (searchTerm f)) (lower (description t))"

definition statusMatches :: "filters \<Rightarrow> task \<Rightarrow> bool" where
  "statusMatches f t \<longleftrightarrow> statusFilter f = ''all'' \<or> statusString (status t) = statusFilter f"

definition priorityMatches :: "filters \<Rightarrow> task \<Rightarrow> bool" where
  "priorityMatches f t \<longleftrightarrow>
     priorityFilter f = ''all'' \<or> priorityString (priority t) = priorityFilter f"

definition categoryMatches :: "filters \<Rightarrow> task \<Rightarrow> bool" where
  "categoryMatches f t \<longleftrightarrow> categoryFilter f = ''all'' \<or> category t = categoryFilter f"

definition personnelMatches :: "filters \<Rightarrow> task \<Rightarrow> bool" where
  "personnelMatches f t \<longleftrightarrow>
     (if personnelFilter f = ''all'' then True
      else if personnelFilter f = ''unassigned'' then assignedTo t = []
      else personnelFilter f \<in> set (assignedTo t))"

definition allMatch :: "(jsString \<Rightarrow> jsString) \<Rightarrow> filters \<Rightarrow> task \<Rightarrow> bool" where
  "allMatch lower f t \<longleftrightarrow>
     searchMatches lower f t \<and> statusMatches f t \<and> priorityMatches f t
     \<and> categoryMatches f t \<and> personnelMatches f t"

text \<open>
  A case-insensitive substring match for a folding \<open>g\<close> of single code units: some
  contiguous part of the string equals the pattern up to \<open>g\<close>.
\<close>

definition equalIgnoringCase :: "('a \<Rightarrow> 'b) \<Rightarrow> 'a list \<Rightarrow> 'a list \<Rightarrow> bool" where
  "equalIgnoringCase g u v \<longleftrightarrow>
     length u = length v \<and> (\<forall>k < length u. g (u ! k) = g (v ! k))"

definition containsIgnoringCase :: "('a \<Rightarrow> 'b) \<Rightarrow> 'a list \<Rightarrow> 'a list \<Rightarrow> bool" where
  "containsIgnoringCase g s pat \<longleftrightarrow>
     (\<exists>before part after. s = before @ part @ after \<and> equalIgnoringCase g part pat)"

lemma startsWith_iff: "startsWith s pat \<longleftrightarrow> (\<exists>after. s = pat @ after)"
  by (induction s pat rule: startsWith.induct) auto

lemma includesStr_iff: "includesStr s pat \<longleftrightarrow> occursIn pat s"
  unfolding occursIn_def
proof (induction s)
  case Nil
  then show ?case by simp
next
  case (Cons c cs)
  show ?case
  proof
    assume "includesStr (c # cs) pat"
    then consider "startsWith (c # cs) pat" | "includesStr cs pat"
      by auto
    then show "\<exists>before after. c # cs = before @ pat @ after"
    proof cases
      case 1
      then obtain after where "c # cs = [] @ pat @ after"
        by (auto simp: startsWith_iff)
      then show ?thesis by blast
    next
      case 2
      with Cons.IH obtain before after where "cs = before @ pat @ after"
        by blast
      then have "c # cs = (c # before) @ pat @ after"
        by simp
      then show ?thesis by blast
    qed
  next
    assume "\<exists>before after. c # cs = before @ pat @ after"
    then obtain before after where d: "c # cs = before @ pat @ after"
      by blast
    show "includesStr (c # cs) pat"
    proof (cases before)
      case Nil
      with d have "startsWith (c # cs) pat"
        by (auto simp: startsWith_iff)
      then show ?thesis by simp
    next
      case (Cons b bs)
      with d have "cs = bs @ pat @ after"
        by simp
      with Cons.IH have "includesStr cs pat"
        by blast
      then show ?thesis by simp
    qed
  qed
qed

lemma equalIgnoringCase_iff: "equalIgnoringCase g u v \<longleftrightarrow> map g u = map g v"
proof -
  have "map g u = map g v \<longleftrightarrow>
      length u = length v \<and> (\<forall>k < length u. g (u ! k) = g (v ! k))"
    using list_eq_iff_nth_eq [of "map g u" "map g v"] by auto
  then show ?thesis
    by (simp only: equalIgnoringCase_def)
qed

lemma occursIn_map: "occursIn (map g pat) (map g s) \<longleftrightarrow> containsIgnoringCase g s pat"
proof
  assume "occursIn (map g pat) (map g s)"
  then have "\<exists>b a. map g s = b @ (map g pat @ a)"
    by (simp only: occursIn_def)
  then obtain b a where "map g s = b @ (map g pat @ a)"
    by (elim exE)
  then have "\<exists>us vs. s = us @ vs \<and> b = map g us \<and> map g pat @ a = map g vs"
    by (rule map_eq_append_conv [THEN iffD1])
  then obtain before rest where 1: "s = before @ rest"
      and 2: "map g pat @ a = map g rest"
    by (elim exE conjE)
  from 2 have "\<exists>us vs. rest = us @ vs \<and> map g pat = map g us \<and> a = map g vs"
    by (rule append_eq_map_conv [THEN iffD1])
  then obtain part after where 3: "rest = part @ after"
      and 4: "map g pat = map g part"
    by (elim exE conjE)
  from 4 have "equalIgnoringCase g part pat"
    by (simp only: equalIgnoringCase_iff)
  moreover from 1 3 have "s = before @ part @ after"
    by (simp only:)
  ultimately show "containsIgnoringCase g s pat"
    unfolding containsIgnoringCase_def by (intro exI conjI)
next
  assume "containsIgnoringCase g s pat"
  then obtain before part after where d: "s = before @ part @ after"
      and e: "equalIgnoringCase g part pat"
    unfolding containsIgnoringCase_def by (elim exE conjE)
  from e have "map g part = map g pat"
    by (simp only: equalIgnoringCase_iff)
  with d have "map g s = map g before @ map g pat @ map g after"
    by simp
  then have "\<exists>b a. map g s = b @ map g pat @ a"
    by (intro exI)
  then show "occursIn (map g pat) (map g s)"
    by (simp only: occursIn_def)
qed

lemma filterCallback_allMatch:
  "filterCallback lower f (lower (searchTerm f)) t \<longleftrightarrow> allMatch lower f t"
proof -
  have search: "(searchTerm f \<noteq> [] \<and>
         \<not> (includesStr (lower (title t)) (lower (searchTerm f))
            \<or> includesStr (lower (description t)) (lower (searchTerm f))))
      \<longleftrightarrow> \<not> searchMatches lower f t"
    by (simp only: searchMatches_def includesStr_iff de_Morgan_disj de_Morgan_conj not_not)
  have st: "(statusFilter f \<noteq> ''all'' \<and> statusString (status t) \<noteq> statusFilter f)
      \<longleftrightarrow> \<not> statusMatches f t"
    by (simp only: statusMatches_def de_Morgan_disj)
  have pr: "(priorityFilter f \<noteq> ''all'' \<and> priorityString (priority t) \<noteq> priorityFilter f)
      \<longleftrightarrow> \<not> priorityMatches f t"
    by (simp only: priorityMatches_def de_Morgan_disj)
  have ca: "(categoryFilter f \<noteq> ''all'' \<and> category t \<noteq> categoryFilter f)
      \<longleftrightarrow> \<not> categoryMatches f t"
    by (simp only: categoryMatches_def de_Morgan_disj)
  have pe: "(if personnelFilter f \<noteq> ''all''
        then (if personnelFilter f = ''unassigned'' \<and> length (assignedTo t) > 0
                then False
              else if personnelFilter f \<noteq> ''unassigned''
                      \<and> personnelFilter f \<notin> set (assignedTo t)
                then False
              else True)
      else True) \<longleftrightarrow> personnelMatches f t"
    unfolding personnelMatches_def
    by (cases "personnelFilter f = ''all''"; cases "personnelFilter f = ''unassigned''";
        cases "assignedTo t = []") simp_all
  show ?thesis
    unfolding filterCallback_def allMatch_def search st pr ca pe
    by (cases "searchMatches lower f t"; cases "statusMatches f t"; cases "priorityMatches f t";
        cases "categoryMatches f t") (simp_all only: if_True if_False simp_thms)
qed

text \<open>
  C5 (as amended). For every lower-case function of the platform,
  \<^verbatim>\<open>listFilteredTasks\<close> returns the tasks of the input that satisfy all five predicates,
  each as often as and in the order in which the input has them; the search predicate
  holds when the search term is empty or its lower case occurs in the lower case of
  the title or of the description. Where the lower case of a string and of a pattern
  is taken code unit by code unit, that occurrence is a case-insensitive substring
  match.
\<close>

theorem filteredTasks_exact:
  "filteredTasks lower f ts = filter (allMatch lower f) ts
   \<and> set (filteredTasks lower f ts) = {t \<in> set ts. searchMatches lower f t \<and> statusMatches f t
        \<and> priorityMatches f t \<and> categoryMatches f t \<and> personnelMatches f t}
   \<and> (\<forall>g s pat. lower pat = map g pat \<and> lower s = map g s \<longrightarrow>
        occursIn (lower pat) (lower s) = containsIgnoringCase g s pat)"
proof -
  have cb: "filterCallback lower f (lower (searchTerm f)) = allMatch lower f"
    by (rule ext) (rule filterCallback_allMatch)
  have eq: "filteredTasks lower f ts = filter (allMatch lower f) ts"
  proof (cases ts)
    case Nil
    then show ?thesis by (simp add: filteredTasks_def)
  next
    case (Cons x xs)
    then show ?thesis by (simp add: filteredTasks_def cb Let_def)
  qed
  have "set (filter (allMatch lower f) ts) = {t \<in> set ts. allMatch lower f t}"
    by (rule set_filter)
  with eq have mem: "set (filteredTasks lower f ts) = {t \<in> set ts. searchMatches lower f t
        \<and> statusMatches f t \<and> priorityMatches f t \<and> categoryMatches f t \<and> personnelMatches f t}"
    by (simp only: allMatch_def simp_thms)
  have fold: "occursIn (lower pat) (lower s) = containsIgnoringCase g s pat"
    if "lower pat = map g pat \<and> lower s = map g s" for g s pat
    using that by (simp add: occursIn_map)
  from eq mem fold show ?thesis
    by blast
qed

definition noFilters :: filters where
  "noFilters =
     \<lparr>searchTerm = [], statusFilter = ''all'', priorityFilter = ''all'',
      categoryFilter = ''all'', personnelFilter = ''all''\<rparr>"

lemma toLowerCase_examples:
  "toLowerCase (str ''CaLiB'') = str ''calib''"
  "toLowerCase (str ''CALIB'') = map lowerUnit (str ''CALIB'')"
  "toLowerCase (str ''Calibracion'') = map lowerUnit (str ''Calibracion'')"
  "toLowerCase [0x39F, 0x394, 0x39F, 0x3A3] = [0x3BF, 0x3B4, 0x3BF, 0x3C2]"
  "toLowerCase [0x3A3] = [0x3C3]"
  "toLowerCase [0x3A3, 0x391] = [0x3C3, 0x3B1]"
  by code_simp+

lemma filteredTasks_search_example:
  "filteredTasks toLowerCase (noFilters\<lparr>searchTerm := str ''CALIB''\<rparr>)
     [newTask (exampleData Pending) ''a'' 1, newTask editedData ''b'' 2]
   = [newTask editedData ''b'' 2]"
  by code_simp

theorem filteredTasks_exact_witness:
  "filteredTasks toLowerCase (noFilters\<lparr>personnelFilter := ''unassigned''\<rparr>)
     [newTask (exampleData Pending) ''a'' 1, newTask editedData ''b'' 2]
   = [newTask (exampleData Pending) ''a'' 1]
   \<and> filteredTasks toLowerCase (noFilters\<lparr>statusFilter := ''active'', personnelFilter := ''6''\<rparr>)
     [newTask (exampleData Pending) ''a'' 1, newTask editedData ''b'' 2]
   = [newTask editedData ''b'' 2]
   \<and> newTask editedData ''b'' 2 \<in> set (filteredTasks toLowerCase
        (noFilters\<lparr>searchTerm := str ''CALIB''\<rparr>)
        [newTask (exampleData Pending) ''a'' 1, newTask editedData ''b'' 2])
   \<and> searchMatches toLowerCase (noFilters\<lparr>searchTerm := str ''CALIB''\<rparr>)
        (newTask editedData ''b'' 2)
   \<and> containsIgnoringCase lowerUnit (str ''Calibracion'') (str ''CALIB'')"
proof -
  let ?a = "newTask (exampleData Pending) ''a'' 1"
  let ?b = "newTask editedData ''b'' 2"
  let ?s = "noFilters\<lparr>searchTerm := str ''CALIB''\<rparr>"
  note u = filteredTasks_exact
      [of toLowerCase "noFilters\<lparr>personnelFilter := ''unassigned''\<rparr>" "[?a, ?b]"]
  note v = filteredTasks_exact
      [of toLowerCase "noFilters\<lparr>statusFilter := ''active'', personnelFilter := ''6''\<rparr>"
          "[?a, ?b]"]
  note w = filteredTasks_exact [of toLowerCase ?s "[?a, ?b]"]
  have 1: "filteredTasks toLowerCase (noFilters\<lparr>personnelFilter := ''unassigned''\<rparr>) [?a, ?b]
      = [?a]"
    using u by (simp add: allMatch_def searchMatches_def statusMatches_def priorityMatches_def
        categoryMatches_def personnelMatches_def noFilters_def newTask_def exampleData_def
        editedData_def)
  have 2: "filteredTasks toLowerCase
      (noFilters\<lparr>statusFilter := ''active'', personnelFilter := ''6''\<rparr>) [?a, ?b] = [?b]"
    using v by (simp add: allMatch_def searchMatches_def statusMatches_def priorityMatches_def
        categoryMatches_def personnelMatches_def noFilters_def newTask_def exampleData_def
        editedData_def)
  have 3: "?b \<in> set (filteredTasks toLowerCase ?s [?a, ?b])"
    by (simp add: filteredTasks_search_example)
  with w have 4: "searchMatches toLowerCase ?s ?b"
    by blast
  have "includesStr (toLowerCase (str ''Calibracion'')) (toLowerCase (str ''CALIB''))"
    by code_simp
  then have "occursIn (toLowerCase (str ''CALIB'')) (toLowerCase (str ''Calibracion''))"
    by (simp only: includesStr_iff)
  moreover have "toLowerCase (str ''CALIB'') = map lowerUnit (str ''CALIB'')
      \<and> toLowerCase (str ''Calibracion'') = map lowerUnit (str ''Calibracion'')"
    by (simp only: toLowerCase_examples simp_thms)
  ultimately have 5: "containsIgnoringCase lowerUnit (str ''Calibracion'') (str ''CALIB'')"
    using w by blast
  from 1 2 3 4 5 show ?thesis by (intro conjI)
qed

text \<open>
  The claim as stated fails: a title of capital omicron, delta, omicron, sigma contains
  the search term capital sigma as it stands, and the filter does not return the task,
  because the sigma of the title becomes a final sigma and that of the term does not.
\<close>

definition odosTask :: task where
  "odosTask =
     (newTask (exampleData Pending) ''g'' 1)
       \<lparr>title := [0x39F, 0x394, 0x39F, 0x3A3], description := []\<rparr>"

theorem filteredTasks_case_insensitive_counterexample:
  "title odosTask = [0x39F, 0x394, 0x39F] @ [0x3A3] @ []
   \<and> containsIgnoringCase lowerUnit (title odosTask) [0x3A3]
   \<and> filteredTasks toLowerCase (noFilters\<lparr>searchTerm := [0x3A3]\<rparr>) [odosTask] = []"
proof -
  have "filteredTasks toLowerCase (noFilters\<lparr>searchTerm := [0x3A3]\<rparr>) [odosTask] = []"
    by code_simp
  moreover have t: "title odosTask = [0x39F, 0x394, 0x39F] @ [0x3A3] @ []"
    by (simp add: odosTask_def)
  moreover have "equalIgnoringCase lowerUnit [0x3A3] [0x3A3]"
    by (simp add: equalIgnoringCase_def)
  with t have "containsIgnoringCase lowerUnit (title odosTask) [0x3A3]"
    unfolding containsIgnoringCase_def by blast
  ultimately show ?thesis
    by (intro conjI)
qed

section \<open>Metrics engine: \<^verbatim>\<open>Dashboard\<close> (computeDashboardStats)\<close>

subsection \<open>Numbers\<close>

text \<open>
  A Number of the source is an IEEE 754 double; it is modelled by the rational it
  denotes. Counts and lengths are integers below \<open>2^53\<close> and exact. The operators
  \<^verbatim>\<open>/\<close> and \<^verbatim>\<open>*\<close> round the exact result to the nearest double, ties to the even
  significand: \<open>toDouble\<close> rounds a rational to 53 significant bits. The exponent is not
  bounded here: the quotients and products below lie between \<open>2^-32\<close> and 100, far
  from overflow and from the subnormal range.

  \<open>ilog2 x\<close> is the exponent of a positive \<open>x\<close>, that is \<open>\<lfloor>log\<^sub>2 x\<rfloor>\<close>, computed from the
  bit lengths of numerator and denominator.
\<close>

definition ilog2 :: "rat \<Rightarrow> int" where
  "ilog2 x =
     (let (p, q) = quotient_of x; d = bitlen p - bitlen q
      in if 2 powi d \<le> x then d else d - 1)"

text \<open>Rounding to the nearest integer, ties to even.\<close>

definition roundHalfEven :: "rat \<Rightarrow> int" where
  "roundHalfEven m =
     (let f = \<lfloor>m\<rfloor>; r = m - of_int f
      in if r < 1 / 2 then f else if 1 / 2 < r then f + 1 else if even f then f else f + 1)"

definition toDouble :: "rat \<Rightarrow> rat" where
  "toDouble x =
     (if x = 0 then 0
      else let e = ilog2 \<bar>x\<bar>; u = 2 powi (e - 52)
           in sgn x * of_int (roundHalfEven (\<bar>x\<bar> / u)) * u)"


text \<open>
  The two operators, and \<^verbatim>\<open>Math.round\<close>: the integer nearest to its argument, the one
  towards plus infinity at a tie.
\<close>

definition numDiv :: "rat \<Rightarrow> rat \<Rightarrow> rat" where
  "numDiv x y = toDouble (x / y)"

definition numMul :: "rat \<Rightarrow> rat \<Rightarrow> rat" where
  "numMul x y = toDouble (x * y)"

definition mathRound :: "rat \<Rightarrow> int" where
  "mathRound x = \<lfloor>x + 1 / 2\<rfloor>"

subsection \<open>Properties of the rounding\<close>

lemma bitlen_powi_bounds:
  assumes "0 < p"
  shows "(2::rat) powi (bitlen p - 1) \<le> of_int p" "of_int p < (2::rat) powi (bitlen p)"
proof -
  from assms have b: "2 ^ nat (bitlen p - 1) \<le> p" "p < 2 ^ nat (bitlen p)"
    using bitlen_bounds [of p] by simp_all
  from assms have pos: "1 \<le> bitlen p"
    using bitlen_eq_zero_iff [of p] bitlen_nonneg [of p] by linarith
  have "(2::rat) powi (bitlen p - 1) = of_int (2 ^ nat (bitlen p - 1))"
    using pos by (simp add: power_int_def)
  also have "\<dots> \<le> of_int p"
    using b(1) by (simp only: of_int_le_iff)
  finally show "(2::rat) powi (bitlen p - 1) \<le> of_int p" .
  have "(of_int p :: rat) < of_int (2 ^ nat (bitlen p))"
    using b(2) by (simp only: of_int_less_iff)
  also have "\<dots> = (2::rat) powi (bitlen p)"
    using pos by (simp add: power_int_def)
  finally show "of_int p < (2::rat) powi (bitlen p)" .
qed

lemma ilog2_bounds:
  assumes "0 < x"
  shows "2 powi (ilog2 x) \<le> x" "x < 2 powi (ilog2 x + 1)"
proof -
  obtain p q where pq: "quotient_of x = (p, q)"
    by (cases "quotient_of x")
  then have x: "x = of_int p / of_int q" and q: "0 < q"
    by (simp_all add: quotient_of_div quotient_of_denom_pos)
  with assms have p: "0 < p"
    by (simp add: zero_less_divide_iff)
  define d where "d = bitlen p - bitlen q"
  have lo: "(2::rat) powi (d - 1) \<le> x"
  proof -
    have "(2::rat) powi (d - 1) = 2 powi (bitlen p - 1) / 2 powi (bitlen q)"
      unfolding d_def by (simp add: power_int_diff)
    also have "\<dots> \<le> of_int p / 2 powi (bitlen q)"
      using bitlen_powi_bounds(1) [OF p] by (simp add: divide_right_mono)
    also have "\<dots> \<le> of_int p / of_int q"
      using bitlen_powi_bounds(2) [OF q] p q by (simp add: frac_le)
    finally show ?thesis by (simp add: x)
  qed
  have hi: "x < (2::rat) powi (d + 1)"
  proof -
    have "x < 2 powi (bitlen p) / of_int q"
      unfolding x using bitlen_powi_bounds(2) [OF p] q by (simp add: divide_strict_right_mono)
    also have "\<dots> \<le> 2 powi (bitlen p) / 2 powi (bitlen q - 1)"
      using bitlen_powi_bounds(1) [OF q] by (simp add: frac_le)
    also have "\<dots> = (2::rat) powi (d + 1)"
      unfolding d_def by (simp add: power_int_diff [symmetric] algebra_simps)
    finally show ?thesis .
  qed
  have il: "ilog2 x = (if 2 powi d \<le> x then d else d - 1)"
    by (simp add: ilog2_def pq d_def Let_def)
  show "2 powi (ilog2 x) \<le> x"
    using lo by (simp add: il)
  show "x < 2 powi (ilog2 x + 1)"
    using hi by (auto simp: il not_le)
qed








lemma two_powi_less_D:
  assumes "(2::rat) powi m < 2 powi n"
  shows "m < n"
proof (rule ccontr)
  assume "\<not> m < n"
  then have "n \<le> m" by simp
  then have "(2::rat) powi n \<le> 2 powi m"
    by (rule power_int_increasing) simp
  with assms show False by simp
qed

lemma ilog2_unique:
  assumes "0 < x" and "2 powi e \<le> x" and "x < 2 powi (e + 1)"
  shows "ilog2 x = e"
proof -
  note b = ilog2_bounds [OF assms(1)]
  have "(2::rat) powi (ilog2 x) < 2 powi (e + 1)"
    using b(1) assms(3) by (rule le_less_trans)
  then have 1: "ilog2 x < e + 1"
    by (rule two_powi_less_D)
  have "(2::rat) powi e < 2 powi (ilog2 x + 1)"
    using assms(2) b(2) by (rule le_less_trans)
  then have 2: "e < ilog2 x + 1"
    by (rule two_powi_less_D)
  from 1 2 show ?thesis by linarith
qed



lemma toDouble_pos:
  assumes "0 < x"
  shows "toDouble x = of_int (roundHalfEven (x / 2 powi (ilog2 x - 52))) * 2 powi (ilog2 x - 52)"
  using assms by (simp add: toDouble_def Let_def)




lemma toDouble_eqI:
  assumes "0 < x" and "2 powi e \<le> x" and "x < 2 powi (e + 1)"
    and "roundHalfEven (x / 2 powi (e - 52)) = n"
  shows "toDouble x = of_int n * 2 powi (e - 52)"
  using assms by (simp add: toDouble_pos ilog2_unique [OF assms(1-3)])




subsection \<open>The statistics\<close>

text \<open>
  The value of the \<^verbatim>\<open>stats\<close> memo, and the \<open>efficiency\<close> field of the \<^verbatim>\<open>metrics\<close> memo
  (its other two fields format the estimated hours and read the local calendar day;
  no statement below is about them).
\<close>

record dashboardStats =
  totalTasks :: nat
  pendingTasks :: nat
  activeTasks :: nat
  completedTasks :: nat
  activePersonnel :: nat
  urgentTasks :: nat
  completionRate :: rat

definition stats :: "task list \<Rightarrow> personnel list \<Rightarrow> dashboardStats" where
  "stats ts ps =
     (let total = length ts;
          pending = length (filter (\<lambda>t. status t = Pending) ts);
          actives = length (filter (\<lambda>t. status t = Active) ts);
          completed = length (filter (\<lambda>t. status t = Completed) ts);
          activePeople = length (filter (\<lambda>p. active p) ps);
          urgent = length (filter (\<lambda>t. priority t = Urgent \<and> status t \<noteq> Completed) ts);
          rate = (if total > 0 then numMul (numDiv (of_nat completed) (of_nat total)) 100 else 0)
      in \<lparr>totalTasks = total, pendingTasks = pending, activeTasks = actives,
          completedTasks = completed, activePersonnel = activePeople, urgentTasks = urgent,
          completionRate = rate\<rparr>)"

definition efficiency :: "dashboardStats \<Rightarrow> int" where
  "efficiency s =
     (if activeTasks s > 0
      then mathRound (numMul (numDiv (of_nat (completedTasks s))
                                     (of_nat (completedTasks s + activeTasks s))) 100)
      else 100)"







lemma stats_fields:
  "totalTasks (stats ts ps) = length ts"
  "activeTasks (stats ts ps) = length (filter (\<lambda>t. status t = Active) ts)"
  "completedTasks (stats ts ps) = length (filter (\<lambda>t. status t = Completed) ts)"
  "completionRate (stats ts ps) =
     (if length ts > 0
      then numMul (numDiv (of_nat (length (filter (\<lambda>t. status t = Completed) ts)))
                          (of_nat (length ts))) 100
      else 0)"
  by (simp_all add: stats_def Let_def)











lemma roundHalfEven_down:
  assumes "of_int n \<le> m" and "m < of_int n + 1 / 2"
  shows "roundHalfEven m = n"
proof -
  from assms have "\<lfloor>m\<rfloor> = n"
    by (intro floor_unique) simp_all
  with assms(2) show ?thesis
    by (simp add: roundHalfEven_def Let_def)
qed

text \<open>
  At an exact tie the two roundings of the operations decide: with 29 completed and
  171 active tasks the exact percentage is 14.5, the computed one is just below it, and
  the efficiency is 14.
\<close>

lemma numDiv_29_200: "numDiv 29 200 = 5224175567749775 / 2 ^ 55"
proof -
  have "roundHalfEven (29 / 200 / 2 powi (- 3 - 52)) = 5224175567749775"
    by (rule roundHalfEven_down) (simp_all add: power_int_minus)
  from toDouble_eqI [OF _ _ _ this] show ?thesis
    unfolding numDiv_def by (simp add: power_int_minus)
qed

lemma numMul_tie: "numMul (5224175567749775 / 2 ^ 55) 100 = 8162774324609023 / 2 ^ 49"
proof -
  have "roundHalfEven (5224175567749775 / 2 ^ 55 * 100 / 2 powi (3 - 52)) = 8162774324609023"
    by (rule roundHalfEven_down) (simp_all add: power_int_minus)
  from toDouble_eqI [OF _ _ _ this] show ?thesis
    unfolding numMul_def by (simp add: power_int_minus)
qed

lemma efficiency_tie_example:
  "efficiency (stats (replicate 29 (newTask (exampleData Completed) ''c'' 1)
                      @ replicate 171 (newTask (exampleData Active) ''a'' 2)) []) = 14"
proof -
  have "mathRound (numMul (numDiv 29 200) 100) = 14"
    unfolding numDiv_29_200 numMul_tie mathRound_def by (intro floor_unique) simp_all
  then show ?thesis
    by (simp add: efficiency_def stats_fields newTask_def exampleData_def)
qed

end
